theory Spec2Isabelle
  imports Complex_Main "HOL-Library.Sublist" "HOL-Library.Multiset"
begin

section \<open>Values of the host language\<close>

text \<open>
  The program is TypeScript (\<^verbatim>\<open>src/taskpane/taskpane.ts\<close>). Its strings are modelled as
  \<^typ>\<open>string\<close>, compared character by character (no case folding, no normalisation).

  A JavaScript \<^verbatim>\<open>number\<close> is either \<^verbatim>\<open>NaN\<close> or a numeric value. The numeric values are
  taken as exact rationals: rounding to binary64 and overflow to an infinity are not
  modelled. Every comparison with \<^verbatim>\<open>NaN\<close> is false, as in the language.
\<close>

datatype number = NaN | Fin rat

fun num_gt :: "number \<Rightarrow> number \<Rightarrow> bool" where
  "num_gt (Fin x) (Fin y) = (y < x)"
| "num_gt _ _ = False"

fun num_lt :: "number \<Rightarrow> number \<Rightarrow> bool" where
  "num_lt (Fin x) (Fin y) = (x < y)"
| "num_lt _ _ = False"

subsection \<open>\<^verbatim>\<open>String.prototype.includes\<close>\<close>

text \<open>
  \<^verbatim>\<open>s.includes(f)\<close> looks for the smallest index at which \<^verbatim>\<open>f\<close> starts in \<^verbatim>\<open>s\<close>;
  the empty string is found at index 0 of every string.
\<close>

fun string_includes :: "string \<Rightarrow> string \<Rightarrow> bool" where
  "string_includes [] f = (f = [])"
| "string_includes (c # cs) f = (prefix f (c # cs) \<or> string_includes cs f)"

subsection \<open>\<^verbatim>\<open>String.prototype.split\<close> and \<^verbatim>\<open>Array.prototype.join\<close>\<close>

text \<open>
  \<^verbatim>\<open>s.split(",")\<close>: the pieces between the separators, in order; the empty string splits
  into one empty piece. \<open>w\<close> is the piece being read.
\<close>

fun split_from :: "char \<Rightarrow> string \<Rightarrow> string \<Rightarrow> string list" where
  "split_from d w [] = [w]"
| "split_from d w (c # cs) =
     (if c = d then w # split_from d [] cs else split_from d (w @ [c]) cs)"

definition string_split :: "string \<Rightarrow> char \<Rightarrow> string list" where
  "string_split s d = split_from d [] s"

fun join :: "string list \<Rightarrow> string \<Rightarrow> string" where
  "join [] sep = []"
| "join [x] sep = x"
| "join (x # y # ys) sep = x @ sep @ join (y # ys) sep"

subsection \<open>\<^verbatim>\<open>Set<string>\<close>\<close>

text \<open>
  A JavaScript \<^verbatim>\<open>Set\<close> iterates in insertion order, and the program joins a set's elements
  in that order, so a set is the list of its elements in insertion order. \<^verbatim>\<open>add\<close> of an
  element that is present changes nothing; \<^verbatim>\<open>new Set(array)\<close> adds the array's elements
  from left to right.
\<close>

type_synonym 'a Set = "'a list"

definition Set_add :: "'a Set \<Rightarrow> 'a \<Rightarrow> 'a Set" where
  "Set_add s x = (if x \<in> set s then s else s @ [x])"

definition Set_new :: "'a list \<Rightarrow> 'a Set" where
  "Set_new xs = foldl Set_add [] xs"

definition Set_delete :: "'a Set \<Rightarrow> 'a \<Rightarrow> 'a Set" where
  "Set_delete s x = removeAll x s"

definition Set_size :: "'a Set \<Rightarrow> nat" where
  "Set_size s = length s"

subsection \<open>The two regular expressions of \<^verbatim>\<open>matchAmount\<close> and \<^verbatim>\<open>parseFloat\<close>\<close>

definition is_digit :: "char \<Rightarrow> bool" where
  "is_digit c = (c \<in> set ''0123456789'')"

text \<open>The character class \<^verbatim>\<open>[-\d.]\<close>.\<close>

definition bound_char :: "char \<Rightarrow> bool" where
  "bound_char c = (c = CHR ''-'' \<or> is_digit c \<or> c = CHR ''.'')"

text \<open>
  \<^verbatim>\<open>/(?:>([-\d.]+))/.exec(s)\<close> and \<^verbatim>\<open>/(?:<([-\d.]+))/.exec(s)\<close>, for the marker
  character \<open>m\<close>: the leftmost position where \<open>m\<close> is followed by at least one character
  of the class matches, and the capture group is the longest run of class characters
  there (the quantifier is greedy and nothing follows it). The result is capture group 1,
  the only part of the match the program reads; \<open>None\<close> is \<^verbatim>\<open>null\<close>.
\<close>

fun regex_exec :: "char \<Rightarrow> string \<Rightarrow> string option" where
  "regex_exec m [] = None"
| "regex_exec m (c # cs) =
     (if c = m \<and> takeWhile bound_char cs \<noteq> [] then Some (takeWhile bound_char cs)
      else regex_exec m cs)"

text \<open>The value of a digit is its position in \<^verbatim>\<open>0123456789\<close>.\<close>

definition digit_val :: "char \<Rightarrow> nat" where
  "digit_val c = length (takeWhile (\<lambda>d. d \<noteq> c) ''0123456789'')"

definition digits_val :: "string \<Rightarrow> nat" where
  "digits_val ds = foldl (\<lambda>a c. 10 * a + digit_val c) 0 ds"

text \<open>
  \<^verbatim>\<open>parseFloat\<close> on the strings the regular expressions capture, which consist of
  \<^verbatim>\<open>-\<close>, digits and \<^verbatim>\<open>.\<close> only (no white space, \<^verbatim>\<open>+\<close>, exponent or \<^verbatim>\<open>Infinity\<close> can
  occur in them). It reads the longest prefix that is a decimal literal: an optional
  \<^verbatim>\<open>-\<close>, digits, and an optional \<^verbatim>\<open>.\<close> with digits, at least one digit in all; the rest
  of the string is ignored. Without such a prefix the result is \<^verbatim>\<open>NaN\<close>.
\<close>

definition parseFloat :: "string \<Rightarrow> number" where
  "parseFloat s =
     (let neg = (s \<noteq> [] \<and> hd s = CHR ''-'');
          r = (if neg then tl s else s);
          ip = takeWhile is_digit r;
          r2 = dropWhile is_digit r;
          fp = (if r2 \<noteq> [] \<and> hd r2 = CHR ''.'' then takeWhile is_digit (tl r2) else []);
          v = of_nat (digits_val ip) + of_nat (digits_val fp) / 10 ^ length fp
      in if ip = [] \<and> fp = [] then NaN else Fin (if neg then - v else v))"

section \<open>The rule model\<close>

record Rule =
  category :: string
  tag :: "string Set"
  description :: string
  account :: string
  institution :: string
  amount :: string

text \<open>The constructor: the tag cell is split at commas, and the empty tag is removed.\<close>

definition Rule_new ::
  "string \<Rightarrow> string \<Rightarrow> string \<Rightarrow> string \<Rightarrow> string \<Rightarrow> string \<Rightarrow> Rule" where
  "Rule_new category' tagRaw description' account' institution' amount' =
     \<lparr>category = category',
      tag = Set_delete (Set_new (string_split tagRaw CHR '','')) [],
      description = description',
      account = account',
      institution = institution',
      amount = amount'\<rparr>"

definition matchDescription :: "Rule \<Rightarrow> string \<Rightarrow> bool" where
  "matchDescription this testString =
     (description this = [] \<or> string_includes testString (description this))"

definition matchAccount :: "Rule \<Rightarrow> string \<Rightarrow> bool" where
  "matchAccount this testString =
     (account this = [] \<or> string_includes testString (account this))"

definition matchInstitution :: "Rule \<Rightarrow> string \<Rightarrow> bool" where
  "matchInstitution this testString =
     (institution this = [] \<or> string_includes testString (institution this))"

text \<open>
  \<^verbatim>\<open>matchAmount\<close> has four \<^verbatim>\<open>if\<close> statements and no final \<^verbatim>\<open>return\<close>: falling through
  them returns \<^verbatim>\<open>undefined\<close>, which is \<open>None\<close> here.
\<close>

definition lowerBound :: "Rule \<Rightarrow> string option" where
  "lowerBound this = regex_exec CHR ''>'' (amount this)"

definition upperBound :: "Rule \<Rightarrow> string option" where
  "upperBound this = regex_exec CHR ''<'' (amount this)"

definition matchAmount :: "Rule \<Rightarrow> number \<Rightarrow> bool option" where
  "matchAmount this testNumber =
     (if lowerBound this = None \<and> upperBound this = None then Some True
      else if lowerBound this \<noteq> None \<and> upperBound this \<noteq> None then
        Some (num_gt testNumber (parseFloat (the (lowerBound this))) \<and>
              num_lt testNumber (parseFloat (the (upperBound this))))
      else if lowerBound this \<noteq> None then
        Some (num_gt testNumber (parseFloat (the (lowerBound this))))
      else if upperBound this \<noteq> None then
        Some (num_lt testNumber (parseFloat (the (upperBound this))))
      else None)"

section \<open>The transaction model\<close>

text \<open>A \<^verbatim>\<open>Date\<close> object holds a time value, a number (\<^verbatim>\<open>NaN\<close> for an invalid date).\<close>

datatype Date = Date number

record Transaction =
  address :: "number option"
  date :: Date
  description :: string
  category :: string
  tags :: "string Set"
  amount :: number
  account :: string
  accountNum :: string
  institution :: string
  month :: Date
  week :: Date
  fullDescription :: string
  checkNumber :: string
  transactionId :: string
  categorized :: bool

text \<open>
  Transactions are objects that \<^verbatim>\<open>runRules\<close> mutates in place, and the same object may be
  reachable more than once. So a transaction lives in a store and is named by a
  reference. The map from transaction ids to transactions is the list of its entries in
  insertion order, the order in which \<^verbatim>\<open>values()\<close> iterates.
\<close>

type_synonym ref = nat

type_synonym store = "ref \<Rightarrow> Transaction"

type_synonym TransactionMap = "(string \<times> ref) list"

definition Map_values :: "TransactionMap \<Rightarrow> ref list" where
  "Map_values m = map snd m"

section \<open>The categorization pass\<close>

text \<open>
  The conjunction of the four predicates. \<^verbatim>\<open>a && b && c && d\<close> is tested by \<^verbatim>\<open>if\<close>, and
  \<^verbatim>\<open>undefined\<close> is falsy: the rule fires when \<^verbatim>\<open>matchAmount\<close> returns \<^verbatim>\<open>true\<close>.
\<close>

definition ruleMatch :: "Rule \<Rightarrow> Transaction \<Rightarrow> bool" where
  "ruleMatch rule transaction =
     (matchDescription rule (description transaction) \<and>
      matchAccount rule (account transaction) \<and>
      matchInstitution rule (institution transaction) \<and>
      matchAmount rule (amount transaction) = Some True)"

definition categorizable :: "bool \<Rightarrow> Transaction \<Rightarrow> bool" where
  "categorizable uncategorizedOnly transaction =
     (\<not> categorized transaction \<and>
      (\<not> uncategorizedOnly \<or> (uncategorizedOnly \<and> category transaction = [])))"

text \<open>The body of the inner loop: one rule applied to one transaction.\<close>

definition rule_step :: "bool \<Rightarrow> Transaction \<Rightarrow> Rule \<Rightarrow> Transaction" where
  "rule_step uncategorizedOnly transaction rule =
     (if ruleMatch rule transaction then
        (let t1 = (if categorizable uncategorizedOnly transaction
                   then transaction\<lparr>category := Rule.category rule, categorized := True\<rparr>
                   else transaction)
         in t1\<lparr>tags := foldl Set_add (tags t1) (tag rule)\<rparr>)
      else transaction)"

text \<open>The inner loop, over the rules in their order.\<close>

fun rules_loop :: "Rule list \<Rightarrow> bool \<Rightarrow> Transaction \<Rightarrow> Transaction" where
  "rules_loop [] uncategorizedOnly transaction = transaction"
| "rules_loop (rule # rules) uncategorizedOnly transaction =
     rules_loop rules uncategorizedOnly (rule_step uncategorizedOnly transaction rule)"

text \<open>
  The outer loop, over the references of the transactions: the inner loop updates the
  object in the store, and the reference is pushed onto \<open>matches\<close>.
\<close>

fun transactions_loop ::
  "Rule list \<Rightarrow> bool \<Rightarrow> ref list \<Rightarrow> ref list \<Rightarrow> store \<Rightarrow> ref list \<times> store" where
  "transactions_loop rules uncategorizedOnly [] matches h = (matches, h)"
| "transactions_loop rules uncategorizedOnly (r # rs) matches h =
     transactions_loop rules uncategorizedOnly rs (matches @ [r])
       (h(r := rules_loop rules uncategorizedOnly (h r)))"

text \<open>
  \<^verbatim>\<open>runRules\<close> returns the array of the transaction objects and leaves them mutated: the
  result is the list of references and the store after the pass. The function is
  \<^verbatim>\<open>async\<close> without an \<^verbatim>\<open>await\<close>: its promise resolves with that array. The two lines
  it logs to the page are not part of the model.
\<close>

definition runRules ::
  "Rule list \<Rightarrow> TransactionMap \<Rightarrow> bool \<Rightarrow> store \<Rightarrow> ref list \<times> store" where
  "runRules rules transactionObject uncategorizedOnly h =
     transactions_loop rules uncategorizedOnly (Map_values transactionObject) [] h"

section \<open>The tag projection\<close>

text \<open>
  A cell of the output is a string or \<^verbatim>\<open>undefined\<close> (\<open>None\<close>): \<open>tagArray\<close> is declared
  in the loop body without a value and assigned only when the tag set is not empty.
\<close>

fun scrapeTags_loop ::
  "Transaction list \<Rightarrow> string option list list \<Rightarrow> string option list list" where
  "scrapeTags_loop [] tagList = tagList"
| "scrapeTags_loop (txn # txns) tagList =
     (let tagArray = (if Set_size (tags txn) > 0 then Some (join (tags txn) '','') else None)
      in scrapeTags_loop txns (tagList @ [[tagArray]]))"

definition scrapeTags :: "Transaction list \<Rightarrow> string option list list" where
  "scrapeTags txns = scrapeTags_loop txns []"

section \<open>The amount expressions as the specification words them\<close>

text \<open>
  The specification describes an amount filter as one of the literal forms \<^verbatim>\<open>>N\<close>,
  \<^verbatim>\<open><N\<close> or \<^verbatim>\<open>>N<M\<close>, where \<open>N\<close> and \<open>M\<close> are signed decimal numbers that may begin with
  \<^verbatim>\<open>-\<close>. These two definitions follow those words, not the code: a signed decimal
  number is an optional \<^verbatim>\<open>-\<close>, then digits with at most one \<^verbatim>\<open>.\<close> among them and at
  least one digit.
\<close>

definition spec_decimal_number :: "string \<Rightarrow> bool" where
  "spec_decimal_number s =
     (let r = (if s \<noteq> [] \<and> hd s = CHR ''-'' then tl s else s)
      in list_ex is_digit r \<and> list_all (\<lambda>c. is_digit c \<or> c = CHR ''.'') r \<and>
         length (filter (\<lambda>c. c = CHR ''.'') r) \<le> 1)"

definition spec_literal_form :: "string \<Rightarrow> bool" where
  "spec_literal_form s =
     (case s of
        [] \<Rightarrow> False
      | c # r \<Rightarrow>
          (c = CHR ''<'' \<and> spec_decimal_number r) \<or>
          (c = CHR ''>'' \<and>
            (spec_decimal_number r \<or>
             (let n = takeWhile (\<lambda>x. x \<noteq> CHR ''<'') r; m = dropWhile (\<lambda>x. x \<noteq> CHR ''<'') r
              in spec_decimal_number n \<and> m \<noteq> [] \<and> spec_decimal_number (tl m)))))"

section \<open>Sample data\<close>

text \<open>
  A transaction as the loader builds it (not yet categorized, no category, no tags) and
  three rules built by the constructor: \<open>rule_gas\<close> does not fire on the transaction,
  \<open>rule_blank\<close> fires and has the empty category, \<open>rule_food\<close> fires as well.
\<close>

abbreviation cafe_txn :: Transaction where
  "cafe_txn \<equiv>
     \<lparr>address = Some (Fin 2), date = Date (Fin 0), description = ''CAFE LATTE'',
      category = [], tags = [], amount = Fin (9 / 2), account = ''Checking'',
      accountNum = ''1234'', institution = ''Bank'', month = Date (Fin 0),
      week = Date (Fin 0), fullDescription = ''CAFE LATTE 5TH AVE'', checkNumber = [],
      transactionId = ''t1'', categorized = False\<rparr>"

abbreviation rule_gas :: Rule where
  "rule_gas \<equiv> Rule_new ''Auto'' ''car'' ''GAS'' [] [] []"

abbreviation rule_blank :: Rule where
  "rule_blank \<equiv> Rule_new [] ''x'' ''CAFE'' [] [] ''>0''"

abbreviation rule_food :: Rule where
  "rule_food \<equiv> Rule_new ''Food'' ''y,,x'' [] ''Check'' [] ''<10''"

section \<open>Strings and sets\<close>

lemma string_includes_sublist: "string_includes s f = sublist f s"
  by (induction s) (simp_all add: sublist_Cons_right)

lemma string_includes_iff: "string_includes s f \<longleftrightarrow> (\<exists>ps ss. s = ps @ f @ ss)"
  by (simp add: string_includes_sublist sublist_def)

lemma Set_add_member: "x \<in> set s \<Longrightarrow> Set_add s x = s"
  by (simp add: Set_add_def)

lemma set_Set_add: "set (Set_add s x) = insert x (set s)"
  by (auto simp: Set_add_def)

lemma set_foldl_Set_add: "set (foldl Set_add s xs) = set s \<union> set xs"
  by (induction xs arbitrary: s) (auto simp: set_Set_add)

lemma foldl_Set_add_absorb: "set xs \<subseteq> set s \<Longrightarrow> foldl Set_add s xs = s"
  by (induction xs arbitrary: s) (simp_all add: Set_add_member)

section \<open>One transaction under the rule list\<close>

lemma rule_step_frame:
  "rule_step u t rule =
     t\<lparr>category := category (rule_step u t rule),
       tags := tags (rule_step u t rule),
       categorized := categorized (rule_step u t rule)\<rparr>"
  by (simp add: rule_step_def Let_def)

lemma ruleMatch_frame:
  "description t' = description t \<Longrightarrow> account t' = account t \<Longrightarrow>
   institution t' = institution t \<Longrightarrow> amount t' = amount t \<Longrightarrow>
   ruleMatch rule t' = ruleMatch rule t"
  by (simp add: ruleMatch_def)

lemma ruleMatch_rule_step: "ruleMatch rule (rule_step u t rule') = ruleMatch rule t"
  by (rule ruleMatch_frame) (simp_all add: rule_step_def Let_def)

lemma rules_loop_frame:
  "rules_loop rules u t =
     t\<lparr>category := category (rules_loop rules u t),
       tags := tags (rules_loop rules u t),
       categorized := categorized (rules_loop rules u t)\<rparr>"
proof (induction rules arbitrary: t)
  case Nil
  show ?case by simp
next
  case (Cons rule rules)
  let ?s = "rule_step u t rule"
  have "rules_loop (rule # rules) u t = rules_loop rules u ?s" by simp
  also have "\<dots> = ?s\<lparr>category := category (rules_loop rules u ?s),
                      tags := tags (rules_loop rules u ?s),
                      categorized := categorized (rules_loop rules u ?s)\<rparr>"
    by (rule Cons.IH)
  also have "\<dots> = t\<lparr>category := category (rules_loop rules u ?s),
                      tags := tags (rules_loop rules u ?s),
                      categorized := categorized (rules_loop rules u ?s)\<rparr>"
    by (subst rule_step_frame) simp
  finally show ?case by simp
qed

lemma ruleMatch_rules_loop: "ruleMatch rule (rules_loop rules u t) = ruleMatch rule t"
  by (rule ruleMatch_frame) (subst rules_loop_frame, simp)+

lemma tags_rule_step:
  "tags (rule_step u t rule) =
     (if ruleMatch rule t then foldl Set_add (tags t) (tag rule) else tags t)"
  by (simp add: rule_step_def Let_def)

lemma category_rule_step:
  "category (rule_step u t rule) =
     (if ruleMatch rule t \<and> categorizable u t then Rule.category rule else category t)"
  by (simp add: rule_step_def Let_def)

lemma categorized_rule_step:
  "categorized (rule_step u t rule) =
     (categorized t \<or> (ruleMatch rule t \<and> categorizable u t))"
  by (simp add: rule_step_def Let_def)

lemma categorizable_rule_step:
  "categorizable u (rule_step u t rule) = (categorizable u t \<and> \<not> ruleMatch rule t)"
  by (auto simp: categorizable_def category_rule_step categorized_rule_step)

lemma tags_rules_loop:
  "tags (rules_loop rules u t) =
     foldl Set_add (tags t) (concat (map tag (filter (\<lambda>rule. ruleMatch rule t) rules)))"
  by (induction rules arbitrary: t) (simp_all add: tags_rule_step ruleMatch_rule_step)

lemma set_tags_rules_loop:
  "set (tags (rules_loop rules u t)) =
     set (tags t) \<union> (\<Union>rule \<in> {rule \<in> set rules. ruleMatch rule t}. set (tag rule))"
  by (auto simp: tags_rules_loop set_foldl_Set_add)

lemma rules_loop_not_categorizable:
  "\<not> categorizable u t \<Longrightarrow>
   category (rules_loop rules u t) = category t \<and>
   categorized (rules_loop rules u t) = categorized t"
proof (induction rules arbitrary: t)
  case Nil
  show ?case by simp
next
  case (Cons rule rules)
  from Cons.prems have "\<not> categorizable u (rule_step u t rule)"
    by (simp add: categorizable_rule_step)
  from Cons.IH [OF this] Cons.prems show ?case
    by (simp add: category_rule_step categorized_rule_step)
qed

lemma rules_loop_none_fires:
  "\<forall>rule \<in> set rules. \<not> ruleMatch rule t \<Longrightarrow> rules_loop rules u t = t"
  by (induction rules) (simp_all add: rule_step_def)

lemma rules_loop_first_fires:
  assumes "categorizable u t"
    and "\<forall>p \<in> set pre. \<not> ruleMatch p t"
    and "ruleMatch rule t"
  shows "category (rules_loop (pre @ rule # post) u t) = Rule.category rule \<and>
         categorized (rules_loop (pre @ rule # post) u t)"
proof -
  let ?s = "rule_step u t rule"
  have pre: "rules_loop (pre @ rule # post) u t = rules_loop post u ?s"
    using assms(2) by (induction pre) (simp_all add: rule_step_def)
  have "\<not> categorizable u ?s"
    using assms(3) by (simp add: categorizable_rule_step)
  from rules_loop_not_categorizable [OF this, of post] assms(1,3) show ?thesis
    by (simp add: pre category_rule_step categorized_rule_step)
qed

lemma category_rules_loop:
  "category (rules_loop rules u t) =
     (if categorizable u t
      then (case find (\<lambda>rule. ruleMatch rule t) rules of
              None \<Rightarrow> category t
            | Some rule \<Rightarrow> Rule.category rule)
      else category t)"
proof (cases "categorizable u t")
  case False
  then show ?thesis by (simp add: rules_loop_not_categorizable)
next
  case True
  show ?thesis
  proof (cases "find (\<lambda>rule. ruleMatch rule t) rules")
    case None
    then have "\<forall>rule \<in> set rules. \<not> ruleMatch rule t"
      by (simp add: find_None_iff)
    then show ?thesis using True None by (simp add: rules_loop_none_fires)
  next
    case (Some rule)
    then obtain i where i: "i < length rules" "ruleMatch (rules ! i) t" "rule = rules ! i"
      "\<forall>j<i. \<not> ruleMatch (rules ! j) t"
      by (auto simp: find_Some_iff)
    have split: "rules = take i rules @ rule # drop (Suc i) rules"
      using i(1,3) by (simp add: id_take_nth_drop)
    have "\<forall>p \<in> set (take i rules). \<not> ruleMatch p t"
      using i(1,4) by (auto simp: in_set_conv_nth)
    from rules_loop_first_fires [OF True this, of rule "drop (Suc i) rules"] i(2,3) split
    show ?thesis using True Some by simp
  qed
qed

lemma categorized_rules_loop:
  "categorized (rules_loop rules u t) =
     (categorized t \<or> (categorizable u t \<and> (\<exists>rule \<in> set rules. ruleMatch rule t)))"
proof (induction rules arbitrary: t)
  case Nil
  show ?case by simp
next
  case (Cons rule rules)
  show ?case
    by (simp add: Cons.IH categorized_rule_step categorizable_rule_step ruleMatch_rule_step)
      blast
qed

lemma rules_loop_idem: "rules_loop rules u (rules_loop rules u t) = rules_loop rules u t"
proof -
  let ?t' = "rules_loop rules u t"
  let ?t'' = "rules_loop rules u ?t'"
  have m: "\<And>rule. ruleMatch rule ?t' = ruleMatch rule t"
    by (rule ruleMatch_rules_loop)
  have "set (concat (map tag (filter (\<lambda>rule. ruleMatch rule ?t') rules))) \<subseteq> set (tags ?t')"
    by (auto simp: m set_tags_rules_loop)
  then have tg: "tags ?t'' = tags ?t'"
    by (subst tags_rules_loop) (rule foldl_Set_add_absorb)
  have c: "categorizable u ?t' \<Longrightarrow> \<forall>rule \<in> set rules. \<not> ruleMatch rule t"
    by (auto simp: categorizable_def categorized_rules_loop category_rules_loop)
  have cc: "category ?t'' = category ?t' \<and> categorized ?t'' = categorized ?t'"
  proof (cases "categorizable u ?t'")
    case True
    with c have "\<forall>rule \<in> set rules. \<not> ruleMatch rule ?t'"
      by (simp add: m)
    then have "?t'' = ?t'"
      by (rule rules_loop_none_fires)
    then show ?thesis by simp
  next
    case False
    then show ?thesis by (rule rules_loop_not_categorizable)
  qed
  have "?t'' = ?t'\<lparr>category := category ?t'', tags := tags ?t'',
                    categorized := categorized ?t''\<rparr>"
    by (rule rules_loop_frame)
  then show ?thesis by (simp add: tg cc)
qed

section \<open>The pass over the store\<close>

lemma transactions_loop_eq:
  "transactions_loop rules u rs matches h =
     (matches @ rs, \<lambda>r. if r \<in> set rs then rules_loop rules u (h r) else h r)"
proof (induction rs arbitrary: matches h)
  case Nil
  show ?case by simp
next
  case (Cons r rs)
  show ?case
    by (simp add: Cons.IH fun_eq_iff rules_loop_idem)
qed

lemma runRules_eq:
  "runRules rules m u h =
     (Map_values m,
      \<lambda>r. if r \<in> set (Map_values m) then rules_loop rules u (h r) else h r)"
  by (simp add: runRules_def transactions_loop_eq)

section \<open>Properties of the rule predicates\<close>

lemma regex_exec_None_iff:
  "regex_exec m s = None \<longleftrightarrow> \<not> (\<exists>ps c ss. s = ps @ m # c # ss \<and> bound_char c)"
proof (induction s)
  case Nil
  show ?case by simp
next
  case (Cons a s)
  show ?case
  proof (cases "a = m \<and> takeWhile bound_char s \<noteq> []")
    case True
    then obtain c ss where "s = c # ss" "bound_char c"
      by (cases s) (auto split: if_splits)
    with True have "a # s = [] @ m # c # ss \<and> bound_char c" by simp
    then have "\<exists>ps c ss. a # s = ps @ m # c # ss \<and> bound_char c" by blast
    with True show ?thesis by simp
  next
    case False
    have "(\<exists>ps c ss. a # s = ps @ m # c # ss \<and> bound_char c) \<longleftrightarrow>
          (\<exists>ps c ss. s = ps @ m # c # ss \<and> bound_char c)"
    proof
      assume "\<exists>ps c ss. a # s = ps @ m # c # ss \<and> bound_char c"
      then obtain ps c ss where e: "a # s = ps @ m # c # ss" "bound_char c" by blast
      show "\<exists>ps c ss. s = ps @ m # c # ss \<and> bound_char c"
      proof (cases ps)
        case Nil
        with e False show ?thesis by simp
      next
        case (Cons p ps')
        with e have "s = ps' @ m # c # ss" by simp
        with e(2) show ?thesis by blast
      qed
    next
      assume "\<exists>ps c ss. s = ps @ m # c # ss \<and> bound_char c"
      then obtain ps c ss where "s = ps @ m # c # ss" "bound_char c" by blast
      then have "a # s = (a # ps) @ m # c # ss \<and> bound_char c" by simp
      then show "\<exists>ps c ss. a # s = ps @ m # c # ss \<and> bound_char c" by blast
    qed
    with False Cons.IH show ?thesis by auto
  qed
qed

lemmas amount_eval =
  matchAmount_def lowerBound_def upperBound_def bound_char_def is_digit_def parseFloat_def
  digits_val_def digit_val_def

text \<open>
  Claim C8. An empty description, account or institution filter matches every input
  string. In general each of the three predicates holds exactly when the input
  contains the filter as a contiguous substring, character for character (the empty
  filter is a substring of every string); the case of the letters matters.
\<close>

theorem match_filters_wildcard_or_substring:
  "matchDescription (this\<lparr>Rule.description := []\<rparr>) s \<and>
   matchAccount (this\<lparr>Rule.account := []\<rparr>) s \<and>
   matchInstitution (this\<lparr>Rule.institution := []\<rparr>) s \<and>
   (matchDescription this s \<longleftrightarrow> (\<exists>ps ss. s = ps @ Rule.description this @ ss)) \<and>
   (matchAccount this s \<longleftrightarrow> (\<exists>ps ss. s = ps @ Rule.account this @ ss)) \<and>
   (matchInstitution this s \<longleftrightarrow> (\<exists>ps ss. s = ps @ Rule.institution this @ ss)) \<and>
   \<not> matchDescription (this\<lparr>Rule.description := ''cafe''\<rparr>) ''CAFE LATTE''"
proof -
  have sub: "(f = [] \<or> string_includes s f) \<longleftrightarrow> (\<exists>ps ss. s = ps @ f @ ss)" for f
  proof (cases "f = []")
    case True
    have "s = [] @ [] @ s" by simp
    then have "\<exists>ps ss. s = ps @ [] @ ss" by blast
    with True show ?thesis by simp
  next
    case False
    then show ?thesis by (simp add: string_includes_iff)
  qed
  show ?thesis
    by (simp add: matchDescription_def matchAccount_def matchInstitution_def sub)
qed

text \<open>
  Claim C3. \<^verbatim>\<open>matchAmount\<close> always returns a boolean, decided by the bounds the two
  regular expressions find: without a bound it is true; with a lower bound \<open>L\<close> only it
  is \<open>n > L\<close>; with an upper bound \<open>U\<close> only it is \<open>n < U\<close>; with both it is
  \<open>n > L\<close> and \<open>n < U\<close>, both strict. For the filter \<^verbatim>\<open>>100<200\<close> the bounds are 100 and
  200, so 150 matches and 100, 200 and 250 do not.
\<close>

theorem matchAmount_bound_policy:
  "matchAmount this n =
     Some (case (lowerBound this, upperBound this) of
             (None, None) \<Rightarrow> True
           | (Some L, None) \<Rightarrow> num_gt n (parseFloat L)
           | (None, Some U) \<Rightarrow> num_lt n (parseFloat U)
           | (Some L, Some U) \<Rightarrow> num_gt n (parseFloat L) \<and> num_lt n (parseFloat U)) \<and>
   lowerBound (this\<lparr>Rule.amount := ''>100<200''\<rparr>) = Some ''100'' \<and>
   upperBound (this\<lparr>Rule.amount := ''>100<200''\<rparr>) = Some ''200'' \<and>
   parseFloat ''100'' = Fin 100 \<and> parseFloat ''200'' = Fin 200 \<and>
   matchAmount (this\<lparr>Rule.amount := ''>100<200''\<rparr>) (Fin 150) = Some True \<and>
   matchAmount (this\<lparr>Rule.amount := ''>100<200''\<rparr>) (Fin 100) = Some False \<and>
   matchAmount (this\<lparr>Rule.amount := ''>100<200''\<rparr>) (Fin 200) = Some False \<and>
   matchAmount (this\<lparr>Rule.amount := ''>100<200''\<rparr>) (Fin 250) = Some False"
proof -
  have policy: "matchAmount this n =
     Some (case (lowerBound this, upperBound this) of
             (None, None) \<Rightarrow> True
           | (Some L, None) \<Rightarrow> num_gt n (parseFloat L)
           | (None, Some U) \<Rightarrow> num_lt n (parseFloat U)
           | (Some L, Some U) \<Rightarrow> num_gt n (parseFloat L) \<and> num_lt n (parseFloat U))"
    by (cases "lowerBound this"; cases "upperBound this") (simp_all add: matchAmount_def)
  have bounds: "lowerBound (this\<lparr>Rule.amount := ''>100<200''\<rparr>) = Some ''100''"
    "upperBound (this\<lparr>Rule.amount := ''>100<200''\<rparr>) = Some ''200''"
    by (simp_all add: lowerBound_def upperBound_def bound_char_def is_digit_def)
  have nums: "parseFloat ''100'' = Fin 100" "parseFloat ''200'' = Fin 200"
    by (simp_all add: parseFloat_def is_digit_def digits_val_def digit_val_def)
  have vals: "matchAmount (this\<lparr>Rule.amount := ''>100<200''\<rparr>) (Fin 150) = Some True"
    "matchAmount (this\<lparr>Rule.amount := ''>100<200''\<rparr>) (Fin 100) = Some False"
    "matchAmount (this\<lparr>Rule.amount := ''>100<200''\<rparr>) (Fin 200) = Some False"
    "matchAmount (this\<lparr>Rule.amount := ''>100<200''\<rparr>) (Fin 250) = Some False"
    by (simp_all add: matchAmount_def bounds nums)
  from policy bounds nums vals show ?thesis by simp
qed

text \<open>
  Claim C6, as amended. \<^verbatim>\<open>matchAmount\<close> raises no error and returns a boolean for every
  amount filter. A side has no bound exactly when the filter nowhere has that side's
  marker (\<^verbatim>\<open>>\<close> for the lower bound, \<^verbatim>\<open><\<close> for the upper bound) immediately followed by
  one of the characters \<^verbatim>\<open>-\<close>, \<^verbatim>\<open>0\<close> to \<^verbatim>\<open>9\<close> and \<^verbatim>\<open>.\<close>; such a side does not constrain
  the result, and when both sides are so, \<^verbatim>\<open>matchAmount(n)\<close> is true for every \<open>n\<close>.
\<close>

theorem matchAmount_unmatched_side_unbounded:
  "matchAmount this n \<noteq> None \<and>
   (lowerBound this = None \<longleftrightarrow>
      \<not> (\<exists>ps c ss. Rule.amount this = ps @ CHR ''>'' # c # ss \<and> bound_char c)) \<and>
   (upperBound this = None \<longleftrightarrow>
      \<not> (\<exists>ps c ss. Rule.amount this = ps @ CHR ''<'' # c # ss \<and> bound_char c)) \<and>
   (lowerBound this = None \<longrightarrow>
      matchAmount this n =
        (case upperBound this of None \<Rightarrow> Some True
         | Some U \<Rightarrow> Some (num_lt n (parseFloat U)))) \<and>
   (upperBound this = None \<longrightarrow>
      matchAmount this n =
        (case lowerBound this of None \<Rightarrow> Some True
         | Some L \<Rightarrow> Some (num_gt n (parseFloat L)))) \<and>
   (lowerBound this = None \<and> upperBound this = None \<longrightarrow> matchAmount this n = Some True)"
proof -
  have total: "matchAmount this n \<noteq> None"
    by (cases "lowerBound this"; cases "upperBound this") (simp_all add: matchAmount_def)
  have lo: "lowerBound this = None \<longleftrightarrow>
      \<not> (\<exists>ps c ss. Rule.amount this = ps @ CHR ''>'' # c # ss \<and> bound_char c)"
    unfolding lowerBound_def by (rule regex_exec_None_iff)
  have up: "upperBound this = None \<longleftrightarrow>
      \<not> (\<exists>ps c ss. Rule.amount this = ps @ CHR ''<'' # c # ss \<and> bound_char c)"
    unfolding upperBound_def by (rule regex_exec_None_iff)
  have sides: "lowerBound this = None \<longrightarrow>
      matchAmount this n =
        (case upperBound this of None \<Rightarrow> Some True
         | Some U \<Rightarrow> Some (num_lt n (parseFloat U)))"
    "upperBound this = None \<longrightarrow>
      matchAmount this n =
        (case lowerBound this of None \<Rightarrow> Some True
         | Some L \<Rightarrow> Some (num_gt n (parseFloat L)))"
    "lowerBound this = None \<and> upperBound this = None \<longrightarrow> matchAmount this n = Some True"
    by (simp_all add: matchAmount_def split: option.splits)
  from total lo up sides show ?thesis by blast
qed

theorem matchAmount_unmatched_side_unbounded_witness:
  "lowerBound (Rule_new [] [] [] [] [] ''>=100'') = None \<and>
   upperBound (Rule_new [] [] [] [] [] ''>=100'') = None \<and>
   matchAmount (Rule_new [] [] [] [] [] ''>=100'') (Fin 5) = Some True"
proof -
  have none: "lowerBound (Rule_new [] [] [] [] [] ''>=100'') = None"
    "upperBound (Rule_new [] [] [] [] [] ''>=100'') = None"
    by (simp_all add: lowerBound_def upperBound_def Rule_new_def bound_char_def is_digit_def)
  with matchAmount_unmatched_side_unbounded [of "Rule_new [] [] [] [] [] ''>=100''" "Fin 5"]
  show ?thesis by simp
qed

text \<open>
  The claim as the specification words it fails: the filter \<^verbatim>\<open>>-\<close> is not of a literal
  form and holds no digit, hence no number on either side, yet the lower regular
  expression captures \<^verbatim>\<open>-\<close>, which parses to \<^verbatim>\<open>NaN\<close>, and \<^verbatim>\<open>matchAmount(5)\<close> is false.
\<close>

theorem matchAmount_malformed_counterexample:
  "\<not> spec_literal_form ''>-'' \<and>
   \<not> list_ex is_digit ''>-'' \<and>
   lowerBound (Rule_new [] [] [] [] [] ''>-'') = Some ''-'' \<and>
   upperBound (Rule_new [] [] [] [] [] ''>-'') = None \<and>
   parseFloat ''-'' = NaN \<and>
   matchAmount (Rule_new [] [] [] [] [] ''>-'') (Fin 5) = Some False"
proof -
  have form: "\<not> spec_literal_form ''>-''" "\<not> list_ex is_digit ''>-''"
    by (simp_all add: spec_literal_form_def spec_decimal_number_def is_digit_def)
  have bounds: "lowerBound (Rule_new [] [] [] [] [] ''>-'') = Some ''-''"
    "upperBound (Rule_new [] [] [] [] [] ''>-'') = None"
    by (simp_all add: lowerBound_def upperBound_def Rule_new_def bound_char_def is_digit_def)
  have nan: "parseFloat ''-'' = NaN"
    by (simp add: parseFloat_def is_digit_def)
  have "matchAmount (Rule_new [] [] [] [] [] ''>-'') (Fin 5) = Some False"
    by (simp add: matchAmount_def bounds nan)
  with form bounds nan show ?thesis by simp
qed

section \<open>Properties of the tag projection\<close>

lemma scrapeTags_loop_eq:
  "scrapeTags_loop txns tagList =
     tagList @ map (\<lambda>txn. [if tags txn = [] then None else Some (join (tags txn) '','')]) txns"
  by (induction txns arbitrary: tagList) (simp_all add: Set_size_def)

lemma scrapeTags_eq:
  "scrapeTags txns =
     map (\<lambda>txn. [if tags txn = [] then None else Some (join (tags txn) '','')]) txns"
  by (simp add: scrapeTags_def scrapeTags_loop_eq)

text \<open>
  Claim C7. \<^verbatim>\<open>scrapeTags\<close> returns as many rows as it is given transactions, and row
  \<open>i\<close> is the row of transaction \<open>i\<close>: the order is the input order. For a transaction
  with a non-empty tag set the row's cell is its tags joined by commas, in the order of
  the set.
\<close>

theorem scrapeTags_rows_in_order:
  "length (scrapeTags txns) = length txns \<and>
   (\<forall>i < length txns.
      scrapeTags txns ! i = scrapeTags [txns ! i] ! 0 \<and>
      (tags (txns ! i) \<noteq> [] \<longrightarrow>
         scrapeTags txns ! i = [Some (join (tags (txns ! i)) '','')]))"
  by (simp add: scrapeTags_eq)

theorem scrapeTags_rows_in_order_witness:
  "length (scrapeTags
     [cafe_txn\<lparr>tags := [''b'', ''a'']\<rparr>, cafe_txn, cafe_txn\<lparr>tags := [''c'']\<rparr>]) = 3 \<and>
   scrapeTags [cafe_txn\<lparr>tags := [''b'', ''a'']\<rparr>, cafe_txn, cafe_txn\<lparr>tags := [''c'']\<rparr>] ! 0 =
     [Some ''b,a''] \<and>
   scrapeTags [cafe_txn\<lparr>tags := [''b'', ''a'']\<rparr>, cafe_txn, cafe_txn\<lparr>tags := [''c'']\<rparr>] ! 2 =
     [Some ''c'']"
proof -
  let ?txns = "[cafe_txn\<lparr>tags := [''b'', ''a'']\<rparr>, cafe_txn, cafe_txn\<lparr>tags := [''c'']\<rparr>]"
  have l: "(0::nat) < length ?txns" "(2::nat) < length ?txns" by simp_all
  have t: "tags (?txns ! 0) \<noteq> []" "tags (?txns ! 2) \<noteq> []" by simp_all
  note rows = scrapeTags_rows_in_order [of ?txns]
  from rows have n: "length (scrapeTags ?txns) = length ?txns" by blast
  from rows l(1) t(1) have r0: "scrapeTags ?txns ! 0 = [Some (join (tags (?txns ! 0)) '','')]"
    by blast
  from rows l(2) t(2) have r2: "scrapeTags ?txns ! 2 = [Some (join (tags (?txns ! 2)) '','')]"
    by blast
  from n r0 r2 show ?thesis by simp
qed

text \<open>
  Claim C10. Every row \<^verbatim>\<open>scrapeTags\<close> produces has exactly one cell, and for a
  transaction with an empty tag set that cell is \<^verbatim>\<open>undefined\<close>, not the empty string.
\<close>

theorem scrapeTags_empty_tags_undefined:
  "\<forall>i < length txns.
     length (scrapeTags txns ! i) = 1 \<and>
     (tags (txns ! i) = [] \<longrightarrow>
        scrapeTags txns ! i = [None] \<and> scrapeTags txns ! i \<noteq> [Some []])"
  by (simp add: scrapeTags_eq)

theorem scrapeTags_empty_tags_undefined_witness:
  "length (scrapeTags [cafe_txn\<lparr>tags := [''b'', ''a'']\<rparr>, cafe_txn] ! 0) = 1 \<and>
   length (scrapeTags [cafe_txn\<lparr>tags := [''b'', ''a'']\<rparr>, cafe_txn] ! 1) = 1 \<and>
   tags ([cafe_txn\<lparr>tags := [''b'', ''a'']\<rparr>, cafe_txn] ! 1) = [] \<and>
   scrapeTags [cafe_txn\<lparr>tags := [''b'', ''a'']\<rparr>, cafe_txn] ! 1 = [None]"
proof -
  let ?txns = "[cafe_txn\<lparr>tags := [''b'', ''a'']\<rparr>, cafe_txn]"
  have l: "(0::nat) < length ?txns" "(1::nat) < length ?txns" by simp_all
  have t: "tags (?txns ! 1) = []" by simp
  note rows = scrapeTags_empty_tags_undefined [of ?txns]
  from rows l(1) have c0: "length (scrapeTags ?txns ! 0) = 1" by blast
  from rows l(2) have c1: "length (scrapeTags ?txns ! 1) = 1" by blast
  from rows l(2) t have r1: "scrapeTags ?txns ! 1 = [None]" by blast
  from c0 c1 t r1 show ?thesis by simp
qed

section \<open>Properties of the categorization pass\<close>

lemma runRules_at:
  "r \<in> set (Map_values m) \<Longrightarrow> snd (runRules rules m u h) r = rules_loop rules u (h r)"
  by (simp add: runRules_eq)

lemmas pass_eval =
  runRules_def Map_values_def rule_step_def ruleMatch_def categorizable_def
  matchDescription_def matchAccount_def matchInstitution_def Rule_new_def
  string_split_def Set_new_def Set_add_def Set_delete_def amount_eval

text \<open>
  Claim C1, as amended. Let a transaction of the collection be not yet categorized when
  \<^verbatim>\<open>runRules\<close> starts, and let \<open>uncategorizedOnly\<close> be false or the transaction's category
  be empty. If \<open>rule\<close> is the first rule of the list that fires on it (no rule of \<open>pre\<close>
  fires), then after the pass the transaction's category is the category of \<open>rule\<close>,
  whatever rules follow in \<open>post\<close> and whether or not they fire, and the transaction is
  categorized; this holds for an empty rule category too.
\<close>

theorem runRules_first_match_wins:
  assumes "r \<in> set (Map_values transactionObject)"
    and "\<not> categorized (h r)"
    and "\<not> uncategorizedOnly \<or> category (h r) = []"
    and "\<forall>p \<in> set pre. \<not> ruleMatch p (h r)"
    and "ruleMatch rule (h r)"
  shows "category (snd (runRules (pre @ rule # post) transactionObject uncategorizedOnly h) r) =
           Rule.category rule \<and>
         categorized (snd (runRules (pre @ rule # post) transactionObject uncategorizedOnly h) r)"
proof -
  from assms(2,3) have "categorizable uncategorizedOnly (h r)"
    by (auto simp: categorizable_def)
  from rules_loop_first_fires [OF this assms(4,5)] show ?thesis
    by (simp add: runRules_at [OF assms(1)])
qed

theorem runRules_first_match_wins_witness:
  "0 \<in> set (Map_values [(''t1'', 0)]) \<and>
   \<not> categorized cafe_txn \<and>
   \<not> ruleMatch rule_gas cafe_txn \<and>
   ruleMatch rule_blank cafe_txn \<and>
   ruleMatch rule_food cafe_txn \<and>
   category (snd (runRules ([rule_gas] @ rule_blank # [rule_food]) [(''t1'', 0)] False
     (\<lambda>_. cafe_txn)) 0) = [] \<and>
   categorized (snd (runRules ([rule_gas] @ rule_blank # [rule_food]) [(''t1'', 0)] False
     (\<lambda>_. cafe_txn)) 0)"
proof -
  have r: "0 \<in> set (Map_values [(''t1'', 0)])"
    by (simp add: Map_values_def)
  have c: "\<not> categorized ((\<lambda>_. cafe_txn) (0::nat))"
    "\<not> False \<or> category ((\<lambda>_. cafe_txn) (0::nat)) = []"
    by simp_all
  have gas: "\<not> ruleMatch rule_gas cafe_txn"
    by (simp add: pass_eval)
  have blank: "ruleMatch rule_blank cafe_txn"
    by (simp add: pass_eval)
  have food: "ruleMatch rule_food cafe_txn"
    by (simp add: pass_eval)
  from gas have pre: "\<forall>p \<in> set [rule_gas]. \<not> ruleMatch p ((\<lambda>_. cafe_txn) (0::nat))"
    by simp
  from blank have fires: "ruleMatch rule_blank ((\<lambda>_. cafe_txn) (0::nat))"
    by simp
  have cat: "Rule.category rule_blank = []"
    by (simp add: Rule_new_def)
  from runRules_first_match_wins [OF r c pre fires, of "[rule_food]"] cat r gas blank food
  show ?thesis by simp
qed

text \<open>
  Without the condition on \<open>uncategorizedOnly\<close> the claim fails: with
  \<open>uncategorizedOnly = true\<close>, a transaction that is not categorized and has the category
  \<^verbatim>\<open>Old\<close> keeps it, although \<open>rule_food\<close> with the category \<^verbatim>\<open>Food\<close> is the first rule
  that fires on it.
\<close>

theorem runRules_first_match_gate_counterexample:
  "0 \<in> set (Map_values [(''t1'', 0)]) \<and>
   \<not> categorized (cafe_txn\<lparr>category := ''Old''\<rparr>) \<and>
   ruleMatch rule_food (cafe_txn\<lparr>category := ''Old''\<rparr>) \<and>
   Rule.category rule_food = ''Food'' \<and>
   category (snd (runRules [rule_food, rule_blank] [(''t1'', 0)] True
     (\<lambda>_. cafe_txn\<lparr>category := ''Old''\<rparr>)) 0) = ''Old''"
  by (simp add: pass_eval)

text \<open>
  Claim C2. For a transaction of the collection, every tag of every rule that fires on
  it is in its tag set after the pass, whatever \<open>uncategorizedOnly\<close> and the
  transaction's category and \<open>categorized\<close> flag are. The final tag set is the union of
  the initial tags with the tags of all the firing rules, and it is the same set for
  every reordering of the rule list.
\<close>

theorem runRules_tags_union:
  assumes "r \<in> set (Map_values transactionObject)"
  shows "(\<forall>rule \<in> set rules. ruleMatch rule (h r) \<longrightarrow>
            set (tag rule) \<subseteq> set (tags (snd (runRules rules transactionObject u h) r))) \<and>
         set (tags (snd (runRules rules transactionObject u h) r)) =
           set (tags (h r)) \<union> (\<Union>rule \<in> {rule \<in> set rules. ruleMatch rule (h r)}. set (tag rule)) \<and>
         (\<forall>rules'. mset rules' = mset rules \<longrightarrow>
            set (tags (snd (runRules rules' transactionObject u h) r)) =
            set (tags (snd (runRules rules transactionObject u h) r)))"
proof (intro conjI allI impI ballI)
  have union: "set (tags (snd (runRules rs transactionObject u h) r)) =
      set (tags (h r)) \<union> (\<Union>rule \<in> {rule \<in> set rs. ruleMatch rule (h r)}. set (tag rule))"
    for rs
    by (simp add: runRules_at [OF assms] set_tags_rules_loop)
  show "set (tags (snd (runRules rules transactionObject u h) r)) =
      set (tags (h r)) \<union> (\<Union>rule \<in> {rule \<in> set rules. ruleMatch rule (h r)}. set (tag rule))"
    by (rule union)
  show "set (tag rule) \<subseteq> set (tags (snd (runRules rules transactionObject u h) r))"
    if "rule \<in> set rules" "ruleMatch rule (h r)" for rule
  proof -
    from that have "set (tag rule) \<subseteq> (\<Union>rule \<in> {rule \<in> set rules. ruleMatch rule (h r)}. set (tag rule))"
      by blast
    then show ?thesis
      by (simp add: union le_supI2)
  qed
  show "set (tags (snd (runRules rules' transactionObject u h) r)) =
      set (tags (snd (runRules rules transactionObject u h) r))"
    if "mset rules' = mset rules" for rules'
  proof -
    from that have "set rules' = set rules"
      by (rule mset_eq_setD)
    then show ?thesis
      by (simp only: union)
  qed
qed

theorem runRules_tags_union_witness:
  "0 \<in> set (Map_values [(''t1'', 0)]) \<and>
   mset [rule_food, rule_blank] = mset [rule_blank, rule_food] \<and>
   ruleMatch rule_food cafe_txn \<and>
   set (tag rule_food) \<subseteq>
     set (tags (snd (runRules [rule_blank, rule_food] [(''t1'', 0)] False (\<lambda>_. cafe_txn)) 0)) \<and>
   set (tags (snd (runRules [rule_blank, rule_food] [(''t1'', 0)] False (\<lambda>_. cafe_txn)) 0)) =
     {''x'', ''y''} \<and>
   set (tags (snd (runRules [rule_food, rule_blank] [(''t1'', 0)] False (\<lambda>_. cafe_txn)) 0)) =
     {''x'', ''y''}"
proof -
  let ?m = "[(''t1'', 0::nat)]"
  let ?h = "\<lambda>_::nat. cafe_txn"
  let ?rules = "[rule_blank, rule_food]"
  have r: "0 \<in> set (Map_values ?m)"
    by (simp add: Map_values_def)
  have perm: "mset [rule_food, rule_blank] = mset ?rules"
    by simp
  have food: "ruleMatch rule_food (?h 0)"
    by (simp add: pass_eval)
  have mem: "rule_food \<in> set ?rules"
    by simp
  have once: "set (tags (snd (runRules ?rules ?m False ?h) 0)) = {''x'', ''y''}"
    by (simp add: pass_eval)
  note inst = runRules_tags_union [OF r, of ?rules ?h False]
  note fired = inst [THEN conjunct1, THEN bspec, OF mem, THEN mp, OF food]
  note reordered = inst [THEN conjunct2, THEN conjunct2, THEN spec, THEN mp, OF perm]
  from r perm food fired once reordered show ?thesis
    by (simp only: simp_thms)
qed

text \<open>
  Claim C4. Running \<^verbatim>\<open>runRules\<close> with \<open>uncategorizedOnly = false\<close> a second time on the
  objects the first run has left returns the same array and leaves every object as the
  first run left it: in particular the same category and the same tags for every
  transaction.
\<close>

theorem runRules_idempotent:
  "runRules rules transactionObject False (snd (runRules rules transactionObject False h)) =
     runRules rules transactionObject False h"
proof -
  let ?h' = "snd (runRules rules transactionObject False h)"
  have "rules_loop rules False (?h' r) = rules_loop rules False (h r)"
    if "r \<in> set (Map_values transactionObject)" for r
    using that by (simp add: runRules_at rules_loop_idem)
  then have "snd (runRules rules transactionObject False ?h') = ?h'"
    by (auto simp: runRules_eq)
  moreover have "fst (runRules rules transactionObject False ?h') =
      fst (runRules rules transactionObject False h)"
    by (simp add: runRules_eq)
  ultimately show ?thesis
    by (simp add: prod_eq_iff)
qed

text \<open>
  Claim C5. With \<open>uncategorizedOnly = true\<close>, a transaction of the collection whose
  category is not empty keeps its category, and its tag set still becomes the union of
  its tags with the tags of every firing rule. For every value of \<open>uncategorizedOnly\<close>, a
  pass changes the category of a transaction only if the transaction was not
  categorized and \<open>uncategorizedOnly\<close> is false or the category was empty; one rule
  assigns its category exactly when it fires under that condition, and then marks the
  transaction categorized.
\<close>

theorem runRules_uncategorizedOnly_gate:
  "(r \<in> set (Map_values transactionObject) \<and> category (h r) \<noteq> [] \<longrightarrow>
      category (snd (runRules rules transactionObject True h) r) = category (h r) \<and>
      set (tags (snd (runRules rules transactionObject True h) r)) =
        set (tags (h r)) \<union> (\<Union>rule \<in> {rule \<in> set rules. ruleMatch rule (h r)}. set (tag rule))) \<and>
   (category (snd (runRules rules transactionObject u h) r) \<noteq> category (h r) \<longrightarrow>
      \<not> categorized (h r) \<and> (\<not> u \<or> category (h r) = [])) \<and>
   category (rule_step u t rule) =
     (if ruleMatch rule t \<and> \<not> categorized t \<and> (\<not> u \<or> category t = [])
      then Rule.category rule else category t) \<and>
   categorized (rule_step u t rule) =
     (categorized t \<or> (ruleMatch rule t \<and> (\<not> u \<or> category t = [])))"
proof -
  have gate: "category (snd (runRules rules transactionObject True h) r) = category (h r) \<and>
      set (tags (snd (runRules rules transactionObject True h) r)) =
        set (tags (h r)) \<union> (\<Union>rule \<in> {rule \<in> set rules. ruleMatch rule (h r)}. set (tag rule))"
    if "r \<in> set (Map_values transactionObject)" "category (h r) \<noteq> []"
  proof -
    from that(2) have "\<not> categorizable True (h r)"
      by (simp add: categorizable_def)
    then show ?thesis
      by (simp add: runRules_at [OF that(1)] rules_loop_not_categorizable set_tags_rules_loop)
  qed
  have only: "\<not> categorized (h r) \<and> (\<not> u \<or> category (h r) = [])"
    if "category (snd (runRules rules transactionObject u h) r) \<noteq> category (h r)"
  proof -
    have "categorizable u (h r)"
    proof (rule ccontr)
      assume "\<not> categorizable u (h r)"
      then have "category (rules_loop rules u (h r)) = category (h r)"
        by (simp add: rules_loop_not_categorizable)
      with that show False
        by (simp add: runRules_eq split: if_splits)
    qed
    then show ?thesis by (auto simp: categorizable_def)
  qed
  have step: "category (rule_step u t rule) =
     (if ruleMatch rule t \<and> \<not> categorized t \<and> (\<not> u \<or> category t = [])
      then Rule.category rule else category t)"
    "categorized (rule_step u t rule) =
     (categorized t \<or> (ruleMatch rule t \<and> (\<not> u \<or> category t = [])))"
    by (auto simp: category_rule_step categorized_rule_step categorizable_def)
  from gate only step show ?thesis by blast
qed

theorem runRules_uncategorizedOnly_gate_witness:
  "0 \<in> set (Map_values [(''t1'', 0)]) \<and>
   category (cafe_txn\<lparr>category := ''Old''\<rparr>) \<noteq> [] \<and>
   category (snd (runRules [rule_blank, rule_food] [(''t1'', 0)] True
     (\<lambda>_. cafe_txn\<lparr>category := ''Old''\<rparr>)) 0) = ''Old'' \<and>
   set (tags (snd (runRules [rule_blank, rule_food] [(''t1'', 0)] True
     (\<lambda>_. cafe_txn\<lparr>category := ''Old''\<rparr>)) 0)) = {''x'', ''y''} \<and>
   category (snd (runRules [rule_blank, rule_food] [(''t1'', 0)] False
     (\<lambda>_. cafe_txn\<lparr>category := ''Old''\<rparr>)) 0) = [] \<and>
   \<not> categorized (cafe_txn\<lparr>category := ''Old''\<rparr>)"
proof -
  let ?m = "[(''t1'', 0::nat)]"
  let ?t = "cafe_txn\<lparr>category := ''Old''\<rparr>"
  let ?h = "\<lambda>_::nat. ?t"
  let ?rules = "[rule_blank, rule_food]"
  have r: "0 \<in> set (Map_values ?m)"
    by (simp add: Map_values_def)
  have old: "category (?h 0) \<noteq> []" "category (?h 0) = ''Old''"
    by simp_all
  have tg: "set (tags (snd (runRules ?rules ?m True ?h) 0)) = {''x'', ''y''}"
    by (simp add: pass_eval)
  have changed: "category (snd (runRules ?rules ?m False ?h) 0) = []"
    by (simp add: pass_eval)
  then have ne: "category (snd (runRules ?rules ?m False ?h) 0) \<noteq> category (?h 0)"
    by simp
  note inst = runRules_uncategorizedOnly_gate [of 0 ?m ?h ?rules False]
  from inst r old(1) have kept: "category (snd (runRules ?rules ?m True ?h) 0) = category (?h 0)"
    by blast
  from inst ne have "\<not> categorized (?h 0)"
    by blast
  with kept r old tg changed show ?thesis by simp
qed

text \<open>
  Claim C9. For every transaction object, in the collection or not, for every rule list
  and both values of \<open>uncategorizedOnly\<close>, \<^verbatim>\<open>runRules\<close> leaves the fields \<open>date\<close>,
  \<open>description\<close>, \<open>fullDescription\<close>, \<open>account\<close>, \<open>accountNum\<close>, \<open>institution\<close>, \<open>month\<close>,
  \<open>week\<close>, \<open>checkNumber\<close>, \<open>amount\<close>, \<open>transactionId\<close> and \<open>address\<close> as they were.
\<close>

theorem runRules_frame:
  "date (snd (runRules rules transactionObject u h) r) = date (h r) \<and>
   description (snd (runRules rules transactionObject u h) r) = description (h r) \<and>
   fullDescription (snd (runRules rules transactionObject u h) r) = fullDescription (h r) \<and>
   account (snd (runRules rules transactionObject u h) r) = account (h r) \<and>
   accountNum (snd (runRules rules transactionObject u h) r) = accountNum (h r) \<and>
   institution (snd (runRules rules transactionObject u h) r) = institution (h r) \<and>
   month (snd (runRules rules transactionObject u h) r) = month (h r) \<and>
   week (snd (runRules rules transactionObject u h) r) = week (h r) \<and>
   checkNumber (snd (runRules rules transactionObject u h) r) = checkNumber (h r) \<and>
   amount (snd (runRules rules transactionObject u h) r) = amount (h r) \<and>
   transactionId (snd (runRules rules transactionObject u h) r) = transactionId (h r) \<and>
   address (snd (runRules rules transactionObject u h) r) = address (h r)"
proof (cases "r \<in> set (Map_values transactionObject)")
  case True
  have "snd (runRules rules transactionObject u h) r =
      (h r)\<lparr>category := category (rules_loop rules u (h r)),
             tags := tags (rules_loop rules u (h r)),
             categorized := categorized (rules_loop rules u (h r))\<rparr>"
    unfolding runRules_at [OF True] by (rule rules_loop_frame)
  then show ?thesis by simp
next
  case False
  then show ?thesis by (simp add: runRules_eq)
qed

end
